theory Spec2Isabelle
  imports Main "HOL-Library.Char_ord" "HOL-Library.List_Lexorder" "HOL-Library.Sublist"
begin

section \<open>route_check.py: data model\<close>

text \<open>
  A \<open>View\<close> (the \<open>TypedDict\<close> of the source) holds a timestamp and the contents, a
  dict from prefix to a list of AS numbers. Python dicts keep insertion order and every
  report iterates \<open>contents.items()\<close>, so a dict is an association list with distinct
  keys, in insertion order. The timestamp is the instant itself, in microseconds:
  \<open>datetime.now().isoformat()\<close> and \<open>datetime.fromisoformat\<close> are inverse to each
  other on the naive datetimes the program writes.
\<close>

type_synonym prefix = string
type_synonym contents = "(prefix \<times> int list) list"

record View =
  timestamp :: int
  contents :: contents

text \<open>One record of \<open>parse_output\<close>: the two fields the program reads.\<close>

record bgp_entry =
  network :: string
  as_path :: string

text \<open>The intent file, \<open>yaml.safe_load\<close>ed: a dict from prefix to a list of AS numbers.\<close>

type_synonym intent = "prefix \<rightharpoonup> int list"

datatype error =
  RuntimeError string
  | ConnectError
  | CommandError
  | ParseError
  | ValueError
  | KeyError
  | FileNotFoundError

definition PEER_TRANSLATE :: "int \<rightharpoonup> string" where
  "PEER_TRANSLATE = [3257 \<mapsto> ''GTT'', 6939 \<mapsto> ''HURRICANE'']"

definition PREFIX_TRANSLATE :: "prefix \<rightharpoonup> string" where
  "PREFIX_TRANSLATE = [''1.2.3.0/24'' \<mapsto> ''MY_SITE'']"

section \<open>Strings\<close>

text \<open>\<open>str(n)\<close> of a Python int, and the \<open>repr\<close> of a list of ints (\<open>[100, 200]\<close>).\<close>

fun str_nat :: "nat \<Rightarrow> string" where
  "str_nat n =
     (if n < 10 then [''0123456789'' ! n]
      else str_nat (n div 10) @ [''0123456789'' ! (n mod 10)])"

definition str_int :: "int \<Rightarrow> string" where
  "str_int i = (if i < 0 then CHR ''-'' # str_nat (nat (- i)) else str_nat (nat i))"

fun join :: "string \<Rightarrow> string list \<Rightarrow> string" where
  "join sep [] = []"
| "join sep [s] = s"
| "join sep (s # t # ss) = s @ sep @ join sep (t # ss)"

definition repr_list :: "int list \<Rightarrow> string" where
  "repr_list xs = ''['' @ join '', '' (map str_int xs) @ '']''"

text \<open>
  \<open>int(s)\<close> on a string of word characters: decimal digits, single underscores allowed
  between digits; anything else raises \<open>ValueError\<close> (here \<open>None\<close>). The flag says
  that the previous character was a digit.
\<close>

definition is_digit :: "char \<Rightarrow> bool" where
  "is_digit c = (c \<in> set ''0123456789'')"

definition digit_val :: "char \<Rightarrow> int" where
  "digit_val c = int (of_char c) - 48"

fun int_digits :: "bool \<Rightarrow> int \<Rightarrow> string \<Rightarrow> int option" where
  "int_digits prev acc [] = (if prev then Some acc else None)"
| "int_digits prev acc (c # cs) =
     (if is_digit c then int_digits True (acc * 10 + digit_val c) cs
      else if c = CHR ''_'' \<and> prev then int_digits False acc cs
      else None)"

definition py_int :: "string \<Rightarrow> int option" where
  "py_int s = int_digits False 0 s"

section \<open>The regular expressions\<close>

text \<open>
  \<open>re.sub("\n[NV]", "\n", output)\<close>: every newline followed by \<open>N\<close> or \<open>V\<close> loses
  that letter; the scan resumes after the match.
\<close>

fun strip_markers :: "string \<Rightarrow> string" where
  "strip_markers (c # d # cs) =
     (if c = CHR 0x0A \<and> (d = CHR ''N'' \<or> d = CHR ''V'') then c # strip_markers cs
      else c # strip_markers (d # cs))"
| "strip_markers cs = cs"

text \<open>
  \<open>re.compile(f"(\w+) {asn}").search(as_path)\<close>, for an \<open>asn\<close> of digits, which the
  pattern matches literally, on ASCII text. A match that starts at a given position takes
  the whole run of word characters there (a shorter run is followed by a word character,
  not by the space), then needs the space and \<open>asn\<close>. \<open>search\<close> returns the match at
  the leftmost position that has one; the result is its group 1.
\<close>

definition is_word :: "char \<Rightarrow> bool" where
  "is_word c =
     (c \<in> set ''abcdefghijklmnopqrstuvwxyzABCDEFGHIJKLMNOPQRSTUVWXYZ0123456789_'')"

definition match_here :: "string \<Rightarrow> string \<Rightarrow> string option" where
  "match_here asn s =
     (let w = takeWhile is_word s; r = dropWhile is_word s
      in if w \<noteq> [] \<and> take (length (CHR '' '' # asn)) r = CHR '' '' # asn
         then Some w else None)"

fun search :: "string \<Rightarrow> string \<Rightarrow> string option" where
  "search asn [] = None"
| "search asn (c # cs) =
     (case match_here asn (c # cs) of
        Some w \<Rightarrow> Some w
      | None \<Rightarrow> search asn cs)"

section \<open>Normalising the parsed records (lines 109 to 124)\<close>

text \<open>\<open>d[k] = v\<close>: an existing key keeps its place, a new key goes last.\<close>

fun dict_set :: "('k \<times> 'v) list \<Rightarrow> 'k \<Rightarrow> 'v \<Rightarrow> ('k \<times> 'v) list" where
  "dict_set [] k v = [(k, v)]"
| "dict_set ((k', v') # d) k v =
     (if k' = k then (k, v) # d else (k', v') # dict_set d k v)"

text \<open>\<open>{prefix: [] for prefix in prefix_list}\<close>\<close>

definition empty_paths :: "prefix list \<Rightarrow> contents" where
  "empty_paths prefix_list = fold (\<lambda>p d. dict_set d p []) prefix_list []"

text \<open>
  \<open>data[item["network"]].append(int(str(match.groups()[0])))\<close> when the pattern
  matches: the lookup raises \<open>KeyError\<close> on a missing key, \<open>int\<close> raises
  \<open>ValueError\<close> on a group that is not a number.
\<close>

definition add_item :: "string \<Rightarrow> contents \<Rightarrow> bgp_entry \<Rightarrow> error + contents" where
  "add_item asn data item =
     (case search asn (as_path item) of
        None \<Rightarrow> Inr data
      | Some g \<Rightarrow>
          (case map_of data (network item) of
             None \<Rightarrow> Inl KeyError
           | Some path \<Rightarrow>
               (case py_int g of
                  None \<Rightarrow> Inl ValueError
                | Some n \<Rightarrow> Inr (dict_set data (network item) (path @ [n])))))"

fun populate :: "string \<Rightarrow> contents \<Rightarrow> bgp_entry list \<Rightarrow> error + contents" where
  "populate asn data [] = Inr data"
| "populate asn data (item # items) =
     (case add_item asn data item of
        Inl e \<Rightarrow> Inl e
      | Inr data' \<Rightarrow> populate asn data' items)"

text \<open>\<open>list(dict.fromkeys(path))\<close>: the first occurrence of each value, in order.\<close>

fun fromkeys :: "'a list \<Rightarrow> 'a list" where
  "fromkeys [] = []"
| "fromkeys (x # xs) = x # fromkeys (filter (\<lambda>y. y \<noteq> x) xs)"

definition tidy_paths :: "contents \<Rightarrow> contents" where
  "tidy_paths data = map (\<lambda>(network, path). (network, fromkeys (sort path))) data"

definition normalize :: "string \<Rightarrow> bgp_entry list \<Rightarrow> error + contents" where
  "normalize asn parsed =
     (let prefix_list = sort (map network parsed)
      in case populate asn (empty_paths prefix_list) parsed of
           Inl e \<Rightarrow> Inl e
         | Inr data \<Rightarrow> Inr (tidy_paths data))"

section \<open>The outside world\<close>

text \<open>
  What the program touches: the log file \<open>/tmp/route_view.log\<close> (absent, or its lines,
  one view each, oldest first), the clock, and the route server. The route server is
  given by the outcome of each \<open>netmiko.ConnectHandler\<close> call, numbered from 0 over the
  whole run, and by what \<open>parse_output\<close> makes of a response (\<open>None\<close>: it raises).
  A session answers a command with its output or fails. \<open>sleep\<close> moves the clock; the
  other operations are taken as instantaneous. The trace records the operations in the
  order they happen.
\<close>

datatype command_result = CommandFailure | Output string

datatype connect_result =
  AuthenticationException
  | OtherException
  | Session "string \<Rightarrow> command_result"

record server =
  connect_handler :: "nat \<Rightarrow> connect_result"
  parse_output :: "string \<Rightarrow> bgp_entry list option"

datatype event =
  Fetch
  | Connect
  | Sleep nat
  | SendCommand string
  | Append
  | Read

record world =
  log_file :: "View list option"
  clock :: int
  connects :: nat
  trace :: "event list"

definition log :: "event \<Rightarrow> world \<Rightarrow> world" where
  "log e w = w\<lparr>trace := trace w @ [e]\<rparr>"

definition seconds :: "nat \<Rightarrow> int" where
  "seconds n = int n * 1000000"

definition hours :: "nat \<Rightarrow> int" where
  "hours n = seconds (n * 3600)"

definition sleep :: "nat \<Rightarrow> world \<Rightarrow> world" where
  "sleep n w = log (Sleep n) (w\<lparr>clock := clock w + seconds n\<rparr>)"

definition fetches :: "world \<Rightarrow> nat" where
  "fetches w = count_list (trace w) Fetch"

definition appends :: "world \<Rightarrow> nat" where
  "appends w = count_list (trace w) Append"

definition reads :: "world \<Rightarrow> nat" where
  "reads w = count_list (trace w) Read"

section \<open>Fetching (\<open>_view_from_route_server\<close>)\<close>

text \<open>
  The retry loop of lines 84 to 99. \<open>retry\<close> counts down from 5; the loop runs while
  \<open>retry >= 1\<close> and no connection succeeded. An authentication failure sleeps 3 seconds
  and decrements \<open>retry\<close>; any other exception leaves the function. After the loop,
  \<open>if not success: raise RuntimeError(...)\<close>.
\<close>

fun connect_loop ::
  "server \<Rightarrow> nat \<Rightarrow> world \<Rightarrow> (error + (string \<Rightarrow> command_result)) \<times> world" where
  "connect_loop srv 0 w =
     (Inl (RuntimeError ''Error logging into route-views after 5 attempts''), w)"
| "connect_loop srv (Suc retry) w =
     (let w' = log Connect (w\<lparr>connects := connects w + 1\<rparr>)
      in case connect_handler srv (connects w) of
           Session connection \<Rightarrow> (Inr connection, w')
         | AuthenticationException \<Rightarrow> connect_loop srv retry (sleep 3 w')
         | OtherException \<Rightarrow> (Inl ConnectError, w'))"

text \<open>\<open>with open(FILENAME, "a") as file: file.write(...)\<close>: creates the file if needed.\<close>

definition append_view :: "View \<Rightarrow> world \<Rightarrow> world" where
  "append_view v w =
     log Append (w\<lparr>log_file := Some ((case log_file w of None \<Rightarrow> [] | Some vs \<Rightarrow> vs) @ [v])\<rparr>)"

definition view_from_route_server ::
  "server \<Rightarrow> string \<Rightarrow> world \<Rightarrow> (error + unit) \<times> world" where
  "view_from_route_server srv asn w =
     (case connect_loop srv 5 (log Fetch w) of
        (Inl e, w1) \<Rightarrow> (Inl e, w1)
      | (Inr connection, w1) \<Rightarrow>
          (let command = ''show ip bgp regexp _'' @ asn;
               w2 = log (SendCommand command) w1
           in case connection command of
                CommandFailure \<Rightarrow> (Inl CommandError, w2)
              | Output text \<Rightarrow>
                  (case parse_output srv (strip_markers text) of
                     None \<Rightarrow> (Inl ParseError, w2)
                   | Some parsed \<Rightarrow>
                       (case normalize asn parsed of
                          Inl e \<Rightarrow> (Inl e, w2)
                        | Inr data \<Rightarrow>
                            (Inr (),
                             append_view \<lparr>timestamp = clock w2, contents = data\<rparr> w2)))))"

section \<open>Reading the log (\<open>_view_from_file\<close>) and the refresh policy (\<open>_get_view\<close>)\<close>

text \<open>\<open>_read_file\<close>: the last line of the file, \<open>None\<close> when the file has no lines.\<close>

definition read_file :: "world \<Rightarrow> (error + View option) \<times> world" where
  "read_file w =
     (case log_file w of
        None \<Rightarrow> (Inl FileNotFoundError, w)
      | Some lines \<Rightarrow>
          (if lines = [] then (Inr None, log Read w)
           else (Inr (Some (last lines)), log Read w)))"

definition view_from_file ::
  "server \<Rightarrow> string \<Rightarrow> world \<Rightarrow> (error + View option) \<times> world" where
  "view_from_file srv asn w =
     (case (if log_file w = None then view_from_route_server srv asn w else (Inr (), w)) of
        (Inl e, w1) \<Rightarrow> (Inl e, w1)
      | (Inr _, w1) \<Rightarrow>
          (case read_file w1 of
             (Inl e, w2) \<Rightarrow> (Inl e, w2)
           | (Inr (Some latest_view), w2) \<Rightarrow> (Inr (Some latest_view), w2)
           | (Inr None, w2) \<Rightarrow>
               (case view_from_route_server srv asn w2 of
                  (Inl e, w3) \<Rightarrow> (Inl e, w3)
                | (Inr _, w3) \<Rightarrow> read_file w3)))"

text \<open>
  Lines 166 to 172 of \<open>_get_view\<close>: whether to fetch, given what \<open>_view_from_file\<close>
  returned, the \<open>refresh\<close> flag and \<open>datetime.now()\<close>.
\<close>

definition fetch_needed :: "View option \<Rightarrow> bool \<Rightarrow> int \<Rightarrow> bool" where
  "fetch_needed latest_view refresh time_now =
     (case latest_view of
        None \<Rightarrow> True
      | Some v \<Rightarrow>
          (if refresh then True
           else timestamp v < time_now - hours 8))"

definition get_view ::
  "server \<Rightarrow> string \<Rightarrow> bool \<Rightarrow> world \<Rightarrow> (error + View option) \<times> world" where
  "get_view srv asn refresh w =
     (case view_from_file srv asn w of
        (Inl e, w1) \<Rightarrow> (Inl e, w1)
      | (Inr latest_view, w1) \<Rightarrow>
          (case (if fetch_needed latest_view refresh (clock w1)
                 then view_from_route_server srv asn w1 else (Inr (), w1)) of
             (Inl e, w2) \<Rightarrow> (Inl e, w2)
           | (Inr _, w2) \<Rightarrow> view_from_file srv asn w2))"

section \<open>Reports\<close>

text \<open>\<open>_get_path\<close>: each AS number with its name, or with the unknown marker.\<close>

definition path_entry :: "int \<Rightarrow> string" where
  "path_entry n =
     (case PEER_TRANSLATE n of
        Some name \<Rightarrow> str_int n @ '' ('' @ name @ '')''
      | None \<Rightarrow> str_int n @ '' (UNKNOWN AS)'')"

definition get_path :: "int list \<Rightarrow> string" where
  "get_path path = join '', '' (map path_entry path)"

text \<open>
  \<open>verbose_view\<close>. \<open>PREFIX_TRANSLATE.get(prefix)\<close> is \<open>None\<close> for a missing prefix,
  which the f-string prints as \<open>None\<close>.
\<close>

definition str_optional :: "string option \<Rightarrow> string" where
  "str_optional x = (case x of None \<Rightarrow> ''None'' | Some s \<Rightarrow> s)"

definition verbose_line :: "prefix \<Rightarrow> int list \<Rightarrow> string" where
  "verbose_line pfx path =
     ''Prefix '' @ pfx @ '' ('' @ str_optional (PREFIX_TRANSLATE pfx) @ '') is ''
       @ ''accessible via next hop AS '' @ get_path path @ [CHR 0x0A]"

fun verbose_loop :: "string \<Rightarrow> contents \<Rightarrow> string" where
  "verbose_loop output [] = output"
| "verbose_loop output ((pfx, path) # items) =
     verbose_loop (output @ verbose_line pfx path) items"

definition verbose_view :: "View \<Rightarrow> string" where
  "verbose_view view = verbose_loop [] (contents view)"

text \<open>
  \<open>alert_view\<close>: the loop carries \<open>errors\<close> and \<open>output\<close>; \<open>continue\<close> skips the
  comparison for a prefix the intent does not have.
\<close>

definition alert_step :: "intent \<Rightarrow> bool \<times> string \<Rightarrow> prefix \<times> int list \<Rightarrow> bool \<times> string" where
  "alert_step intent st item =
     (case (st, item) of
        ((errors, output), (pfx, path)) \<Rightarrow>
          (case intent pfx of
             None \<Rightarrow> (True, output @ ''Prefix '' @ pfx @ '' not found in intent file! '')
           | Some declared \<Rightarrow>
               (if declared \<noteq> path
                then (True,
                      output @ ''Prefix '' @ pfx @ '' intent '' @ repr_list declared
                        @ '' does not match reality '' @ repr_list path @ ''  '')
                else (errors, output))))"

fun alert_loop :: "intent \<Rightarrow> bool \<times> string \<Rightarrow> contents \<Rightarrow> bool \<times> string" where
  "alert_loop intent st [] = st"
| "alert_loop intent st (item # items) = alert_loop intent (alert_step intent st item) items"

definition alert_view :: "View \<Rightarrow> intent \<Rightarrow> string" where
  "alert_view view intent =
     (case alert_loop intent (False, []) (contents view) of
        (errors, output) \<Rightarrow>
          (if errors then ''[CRITICAL] '' @ output
           else ''[OK] '' @ (output @ ''No alerts!'')))"

section \<open>Normalisation yields canonical snapshots\<close>

lemma map_of_dict_set: "map_of (dict_set d k v) = (map_of d)(k \<mapsto> v)"
  by (induction d k v rule: dict_set.induct) (auto simp: fun_eq_iff)

lemma keys_dict_set_present: "k \<in> set (map fst d) \<Longrightarrow> map fst (dict_set d k v) = map fst d"
  by (induction d k v rule: dict_set.induct) auto

lemma keys_dict_set_absent: "k \<notin> set (map fst d) \<Longrightarrow> map fst (dict_set d k v) = map fst d @ [k]"
  by (induction d k v rule: dict_set.induct) auto

lemma fold_empty_keys:
  "sorted (map fst d @ ps) \<Longrightarrow> distinct (map fst d) \<Longrightarrow>
   sorted (map fst (fold (\<lambda>p d. dict_set d p []) ps d)) \<and>
   distinct (map fst (fold (\<lambda>p d. dict_set d p []) ps d)) \<and>
   set (map fst (fold (\<lambda>p d. dict_set d p []) ps d)) = set (map fst d) \<union> set ps"
proof (induction ps arbitrary: d)
  case Nil
  then show ?case by simp
next
  case (Cons p ps)
  let ?d = "dict_set d p []"
  have pre: "sorted (map fst ?d @ ps) \<and> distinct (map fst ?d)
      \<and> set (map fst ?d) = insert p (set (map fst d))"
  proof (cases "p \<in> set (map fst d)")
    case True
    then have k: "map fst ?d = map fst d" by (rule keys_dict_set_present)
    have "sorted (map fst d @ ps)"
      using Cons.prems(1) by (simp add: sorted_append)
    then show ?thesis using Cons.prems(2) True unfolding k by auto
  next
    case False
    then have k: "map fst ?d = map fst d @ [p]" by (rule keys_dict_set_absent)
    show ?thesis using Cons.prems False unfolding k by simp
  qed
  have "sorted (map fst (fold (\<lambda>p d. dict_set d p []) ps ?d)) \<and>
   distinct (map fst (fold (\<lambda>p d. dict_set d p []) ps ?d)) \<and>
   set (map fst (fold (\<lambda>p d. dict_set d p []) ps ?d)) = set (map fst ?d) \<union> set ps"
    using Cons.IH[of ?d] pre by blast
  then show ?case using pre by simp
qed

lemma dict_set_values: "\<forall>(k, v) \<in> set d. P v \<Longrightarrow> P x \<Longrightarrow> \<forall>(k, v) \<in> set (dict_set d p x). P v"
  by (induction d p x rule: dict_set.induct) auto

lemma fold_empty_values:
  "\<forall>(k, v) \<in> set d. v = [] \<Longrightarrow> \<forall>(k, v) \<in> set (fold (\<lambda>p d. dict_set d p []) ps d). v = []"
proof (induction ps arbitrary: d)
  case Nil then show ?case by simp
next
  case (Cons p ps)
  have "\<forall>(k, v) \<in> set (dict_set d p []). v = []"
    using dict_set_values[where P="\<lambda>v. v = []", OF Cons.prems] by simp
  then show ?case using Cons.IH by simp
qed

lemma set_fromkeys: "set (fromkeys xs) = set xs"
  by (induction xs rule: fromkeys.induct) auto

lemma distinct_fromkeys: "distinct (fromkeys xs)"
  by (induction xs rule: fromkeys.induct) (auto simp: set_fromkeys)

lemma sorted_fromkeys: "sorted xs \<Longrightarrow> sorted (fromkeys xs)"
  by (induction xs rule: fromkeys.induct) (auto simp: set_fromkeys sorted_wrt_filter)

lemma add_item_keys: "add_item asn d item = Inr d' \<Longrightarrow> map fst d' = map fst d"
  by (auto simp: add_item_def split: option.splits dest!: map_of_SomeD intro!: keys_dict_set_present)
    (metis fst_conv image_eqI)

lemma populate_keys: "populate asn d items = Inr d' \<Longrightarrow> map fst d' = map fst d"
proof (induction items arbitrary: d)
  case Nil then show ?case by simp
next
  case (Cons item items)
  then show ?case by (auto split: sum.splits dest: add_item_keys)
qed

lemma add_item_other:
  "add_item asn d item = Inr d' \<Longrightarrow> network item \<noteq> p \<or> search asn (as_path item) = None \<Longrightarrow>
     map_of d' p = map_of d p"
  by (auto simp: add_item_def map_of_dict_set split: option.splits)

lemma populate_other:
  "populate asn d items = Inr d' \<Longrightarrow>
   \<forall>item \<in> set items. network item = p \<longrightarrow> search asn (as_path item) = None \<Longrightarrow>
   map_of d' p = map_of d p"
proof (induction items arbitrary: d)
  case Nil then show ?case by simp
next
  case (Cons item items)
  from Cons.prems(1) obtain d1 where a: "add_item asn d item = Inr d1" and b: "populate asn d1 items = Inr d'"
    by (auto split: sum.splits)
  have "map_of d1 p = map_of d p" using a Cons.prems(2) by (intro add_item_other[OF a]) auto
  moreover have "map_of d' p = map_of d1 p" using Cons.IH[OF b] Cons.prems(2) by simp
  ultimately show ?case by simp
qed

lemma add_item_no_KeyError: "network item \<in> set (map fst d) \<Longrightarrow> add_item asn d item \<noteq> Inl KeyError"
  by (auto simp: add_item_def map_of_eq_None_iff split: option.splits)

lemma populate_no_KeyError:
  "network ` set items \<subseteq> set (map fst d) \<Longrightarrow> populate asn d items \<noteq> Inl KeyError"
proof (induction items arbitrary: d)
  case Nil then show ?case by simp
next
  case (Cons item items)
  show ?case
  proof (cases "add_item asn d item")
    case (Inl e)
    then show ?thesis using add_item_no_KeyError[of item d asn] Cons.prems by auto
  next
    case (Inr d1)
    then have "map fst d1 = map fst d" by (rule add_item_keys)
    then show ?thesis using Cons.IH[of d1] Cons.prems Inr by simp
  qed
qed

lemma empty_paths_keys:
  "sorted (map fst (empty_paths (sort ps))) \<and> distinct (map fst (empty_paths (sort ps)))
    \<and> set (map fst (empty_paths (sort ps))) = set ps"
  using fold_empty_keys[of "[]" "sort ps"] by (simp add: empty_paths_def)

lemma empty_paths_values: "(k, v) \<in> set (empty_paths ps) \<Longrightarrow> v = []"
  using fold_empty_values[of "[]" ps] by (auto simp: empty_paths_def)

lemma map_of_empty_paths: "p \<in> set ps \<Longrightarrow> map_of (empty_paths (sort ps)) p = Some []"
proof -
  assume "p \<in> set ps"
  then have "p \<in> fst ` set (empty_paths (sort ps))"
    using empty_paths_keys[of ps] by (metis set_map)
  then obtain v where "map_of (empty_paths (sort ps)) p = Some v"
    by (metis domD dom_map_of_conv_image_fst)
  then show ?thesis using empty_paths_values[of p v] by (metis map_of_SomeD)
qed

lemma tidy_paths_keys: "map fst (tidy_paths d) = map fst d"
  by (induction d) (auto simp: tidy_paths_def)

lemma tidy_paths_values: "(p, path) \<in> set (tidy_paths d) \<Longrightarrow> sorted path \<and> distinct path"
  by (auto simp: tidy_paths_def distinct_fromkeys sorted_fromkeys)

lemma map_of_tidy_paths: "map_of (tidy_paths d) p = map_option (\<lambda>path. fromkeys (sort path)) (map_of d p)"
  by (induction d) (auto simp: tidy_paths_def)

lemma normalize_no_KeyError: "normalize asn parsed \<noteq> Inl KeyError"
proof -
  have "network ` set parsed \<subseteq> set (map fst (empty_paths (sort (map network parsed))))"
    using empty_paths_keys[of "map network parsed"] by simp
  from populate_no_KeyError[OF this, of asn] show ?thesis
    by (auto simp: normalize_def split: sum.splits)
qed

text \<open>
  Claim C1. When normalisation succeeds, every AS-number list of the result is sorted
  ascending and free of duplicates, the keys are in sorted order, without repetition, and
  are exactly the networks of the parsed records, and a network none of whose records
  matches the pattern has the empty list.
\<close>

theorem normalize_snapshot:
  assumes "normalize asn parsed = Inr data"
  shows "(\<forall>(p, path) \<in> set data. sorted path \<and> distinct path)
    \<and> sorted (map fst data) \<and> distinct (map fst data)
    \<and> set (map fst data) = network ` set parsed
    \<and> (\<forall>p \<in> network ` set parsed.
          (\<forall>item \<in> set parsed. network item = p \<longrightarrow> search asn (as_path item) = None)
            \<longrightarrow> map_of data p = Some [])"
proof -
  let ?e = "empty_paths (sort (map network parsed))"
  from assms obtain d where pop: "populate asn ?e parsed = Inr d" and data: "data = tidy_paths d"
    by (auto simp: normalize_def split: sum.splits)
  have keys: "map fst data = map fst ?e"
    using populate_keys[OF pop] data by (simp add: tidy_paths_keys)
  have 1: "\<forall>(p, path) \<in> set data. sorted path \<and> distinct path"
    using tidy_paths_values data by blast
  have 2: "sorted (map fst data) \<and> distinct (map fst data) \<and> set (map fst data) = network ` set parsed"
    using empty_paths_keys[of "map network parsed"] keys by simp
  have 3: "map_of data p = Some []"
    if "p \<in> network ` set parsed"
      and "\<forall>item \<in> set parsed. network item = p \<longrightarrow> search asn (as_path item) = None" for p
  proof -
    have "map_of d p = map_of ?e p" using populate_other[OF pop that(2)] .
    also have "\<dots> = Some []" using that(1) map_of_empty_paths[of p "map network parsed"] by simp
    finally show ?thesis by (simp add: data map_of_tidy_paths)
  qed
  show ?thesis using 1 2 3 by blast
qed

theorem normalize_snapshot_witness:
  "normalize ''3257''
     [\<lparr>network = ''9.9.9.0/24'', as_path = ''701 3257 3257''\<rparr>,
      \<lparr>network = ''1.2.3.0/24'', as_path = ''6939 3257''\<rparr>,
      \<lparr>network = ''1.2.3.0/24'', as_path = ''174 3257''\<rparr>,
      \<lparr>network = ''1.2.3.0/24'', as_path = ''174 3257''\<rparr>,
      \<lparr>network = ''5.5.5.0/24'', as_path = ''174 32''\<rparr>]
     = Inr [(''1.2.3.0/24'', [174, 6939]), (''5.5.5.0/24'', []), (''9.9.9.0/24'', [701])]
   \<and> sorted (map fst
         [(''1.2.3.0/24'', [174, 6939::int]), (''5.5.5.0/24'', []), (''9.9.9.0/24'', [701])])
   \<and> map_of [(''1.2.3.0/24'', [174, 6939::int]), (''5.5.5.0/24'', []), (''9.9.9.0/24'', [701])]
         ''5.5.5.0/24'' = Some []"
proof -
  let ?parsed = "[\<lparr>network = ''9.9.9.0/24'', as_path = ''701 3257 3257''\<rparr>,
      \<lparr>network = ''1.2.3.0/24'', as_path = ''6939 3257''\<rparr>,
      \<lparr>network = ''1.2.3.0/24'', as_path = ''174 3257''\<rparr>,
      \<lparr>network = ''1.2.3.0/24'', as_path = ''174 3257''\<rparr>,
      \<lparr>network = ''5.5.5.0/24'', as_path = ''174 32''\<rparr>]"
  let ?data = "[(''1.2.3.0/24'', [174, 6939::int]), (''5.5.5.0/24'', []), (''9.9.9.0/24'', [701])]"
  have h: "normalize ''3257'' ?parsed = Inr ?data"
    by code_simp
  have key: "''5.5.5.0/24'' \<in> network ` set ?parsed"
    by simp
  have none: "\<forall>item \<in> set ?parsed.
      network item = ''5.5.5.0/24'' \<longrightarrow> search ''3257'' (as_path item) = None"
    by code_simp
  from normalize_snapshot [OF h] have "sorted (map fst ?data)"
    by blast
  moreover from normalize_snapshot [OF h] key none have "map_of ?data ''5.5.5.0/24'' = Some []"
    by blast
  ultimately show ?thesis using h by blast
qed

section \<open>The alert report\<close>

lemma alert_step_acc:
  "alert_step intent (e, out) item =
     (e \<or> fst (alert_step intent (False, []) item), out @ snd (alert_step intent (False, []) item))"
  by (cases item) (simp add: alert_step_def split: option.splits)

lemma alert_loop_acc:
  "alert_loop intent (e, out) items =
     (e \<or> fst (alert_loop intent (False, []) items), out @ snd (alert_loop intent (False, []) items))"
proof (induction items arbitrary: e out)
  case Nil
  show ?case by simp
next
  case (Cons item items)
  obtain e1 o1 where s: "alert_step intent (False, []) item = (e1, o1)" by (cases "alert_step intent (False, []) item")
  have "alert_loop intent (e, out) (item # items) = alert_loop intent (e \<or> e1, out @ o1) items"
    using alert_step_acc[of intent e out item] s by simp
  also have "\<dots> = ((e \<or> e1) \<or> fst (alert_loop intent (False, []) items), (out @ o1) @ snd (alert_loop intent (False, []) items))"
    by (rule Cons.IH)
  finally have a: "alert_loop intent (e, out) (item # items) = ((e \<or> e1) \<or> fst (alert_loop intent (False, []) items), (out @ o1) @ snd (alert_loop intent (False, []) items))" .
  have "alert_loop intent (False, []) (item # items) = alert_loop intent (e1, o1) items"
    using s by simp
  also have "\<dots> = (e1 \<or> fst (alert_loop intent (False, []) items), o1 @ snd (alert_loop intent (False, []) items))"
    by (rule Cons.IH)
  finally show ?case using a by simp
qed

lemma alert_loop_Cons:
  "alert_loop intent (False, []) (item # items) =
     (fst (alert_step intent (False, []) item) \<or> fst (alert_loop intent (False, []) items),
      snd (alert_step intent (False, []) item) @ snd (alert_loop intent (False, []) items))"
proof -
  obtain e1 o1 where s: "alert_step intent (False, []) item = (e1, o1)" by (cases "alert_step intent (False, []) item")
  then show ?thesis using alert_loop_acc[of intent e1 o1 items] by simp
qed

lemma alert_loop_match:
  "\<forall>(p, path) \<in> set items. intent p = Some path \<Longrightarrow> alert_loop intent st items = st"
  by (induction items arbitrary: st) (auto simp: alert_step_def)

lemma alert_loop_cong:
  "\<forall>p \<in> fst ` set items. intent' p = intent p \<Longrightarrow>
     alert_loop intent' st items = alert_loop intent st items"
proof (induction items arbitrary: st)
  case Nil show ?case by simp
next
  case (Cons item items)
  have "alert_step intent' st item = alert_step intent st item"
    using Cons.prems by (cases item; cases st) (simp add: alert_step_def)
  then show ?case using Cons by simp
qed

lemma sublist_prepend: "sublist xs ys \<Longrightarrow> sublist xs (zs @ ys)"
  by (simp add: sublist_append)

lemma alert_loop_finding:
  assumes "item \<in> set items" and "alert_step intent (False, []) item = (True, finding)"
  shows "fst (alert_loop intent (False, []) items) \<and> sublist finding (snd (alert_loop intent (False, []) items))"
  using assms(1)
proof (induction items)
  case Nil then show ?case by simp
next
  case (Cons x items)
  show ?case
  proof (cases "x = item")
    case True
    then show ?thesis using assms(2) by (subst (1 2) alert_loop_Cons) simp
  next
    case False
    then have "item \<in> set items" using Cons.prems by simp
    from Cons.IH[OF this] show ?thesis
      by (subst (1 2) alert_loop_Cons) (simp add: sublist_prepend)
  qed
qed

lemma alert_view_critical:
  assumes "item \<in> set (contents view)" and "alert_step intent (False, []) item = (True, finding)"
  shows "take 10 (alert_view view intent) = ''[CRITICAL]'' \<and> sublist finding (alert_view view intent)"
proof -
  obtain e out where l: "alert_loop intent (False, []) (contents view) = (e, out)"
    by (cases "alert_loop intent (False, []) (contents view)")
  with alert_loop_finding[OF assms] have e: "e" and s: "sublist finding out" by simp_all
  from s have "sublist finding (''[CRITICAL] '' @ out)" by (rule sublist_prepend)
  moreover have "alert_view view intent = ''[CRITICAL] '' @ out"
    using l e by (simp add: alert_view_def)
  ultimately show ?thesis by simp
qed

lemma alert_view_ok:
  "\<forall>(p, path) \<in> set (contents view). intent p = Some path \<Longrightarrow> alert_view view intent = ''[OK] No alerts!''"
  by (simp add: alert_view_def alert_loop_match)

lemma alert_step_mismatch:
  "intent p = Some declared \<Longrightarrow> declared \<noteq> path \<Longrightarrow>
     alert_step intent (e, out) (p, path) =
       (True, out @ ''Prefix '' @ p @ '' intent '' @ repr_list declared
                @ '' does not match reality '' @ repr_list path @ ''  '')"
  by (simp add: alert_step_def)

lemma alert_step_undeclared:
  "intent p = None \<Longrightarrow>
     alert_step intent (e, out) (p, path) =
       (True, out @ ''Prefix '' @ p @ '' not found in intent file! '')"
  by (simp add: alert_step_def)

lemma alert_step_equal: "intent p = Some path \<Longrightarrow> alert_step intent st (p, path) = st"
  by (cases st) (simp add: alert_step_def)

lemma repr_list_100_200: "repr_list [100, 200] = ''[100, 200]''"
  by (simp add: repr_list_def str_int_def)

lemma repr_list_200_100: "repr_list [200, 100] = ''[200, 100]''"
  by (simp add: repr_list_def str_int_def)

text \<open>
  Claim C2. The comparison of \<open>alert_view\<close> is list inequality, which is sensitive to
  order. With intent \<open>[100, 200]\<close> for a prefix, a view that holds \<open>[200, 100]\<close> for it
  is reported \<open>[CRITICAL]\<close> with the finding for that prefix; observed \<open>[100, 200]\<close>
  leaves the loop state as it was (no finding), and a view of that prefix alone gives
  \<open>[OK] No alerts!\<close>.
\<close>

theorem alert_order_sensitive:
  assumes "intent p = Some [100, 200]"
  shows "((p, [200, 100]) \<in> set (contents view) \<longrightarrow>
            take 10 (alert_view view intent) = ''[CRITICAL]''
            \<and> sublist (''Prefix '' @ p @ '' intent [100, 200] does not match reality [200, 100]  '')
                 (alert_view view intent))
     \<and> alert_step intent st (p, [100, 200]) = st
     \<and> alert_view \<lparr>timestamp = t, contents = [(p, [100, 200])]\<rparr> intent = ''[OK] No alerts!''
     \<and> alert_view \<lparr>timestamp = t, contents = [(p, [200, 100])]\<rparr> intent =
         ''[CRITICAL] Prefix '' @ p @ '' intent [100, 200] does not match reality [200, 100]  ''"
proof -
  have step: "alert_step intent (False, []) (p, [200, 100]) =
      (True, ''Prefix '' @ p @ '' intent [100, 200] does not match reality [200, 100]  '')"
    using alert_step_mismatch[of intent p "[100, 200]" "[200, 100]" False "[]"] assms
    by (simp add: repr_list_100_200 repr_list_200_100)
  have 1: "(p, [200, 100]) \<in> set (contents view) \<longrightarrow>
            take 10 (alert_view view intent) = ''[CRITICAL]''
            \<and> sublist (''Prefix '' @ p @ '' intent [100, 200] does not match reality [200, 100]  '')
                 (alert_view view intent)"
  proof
    assume m: "(p, [200, 100]) \<in> set (contents view)"
    from alert_view_critical[OF m step]
    show "take 10 (alert_view view intent) = ''[CRITICAL]''
            \<and> sublist (''Prefix '' @ p @ '' intent [100, 200] does not match reality [200, 100]  '')
                 (alert_view view intent)" .
  qed
  have 2: "alert_step intent st (p, [100, 200]) = st"
    using assms by (rule alert_step_equal)
  have 3: "alert_view \<lparr>timestamp = t, contents = [(p, [100, 200])]\<rparr> intent = ''[OK] No alerts!''"
    using assms by (intro alert_view_ok) simp
  have 4: "alert_view \<lparr>timestamp = t, contents = [(p, [200, 100])]\<rparr> intent =
         ''[CRITICAL] Prefix '' @ p @ '' intent [100, 200] does not match reality [200, 100]  ''"
    using step by (simp add: alert_view_def)
  show ?thesis by (rule conjI[OF 1 conjI[OF 2 conjI[OF 3 4]]])
qed

theorem alert_order_sensitive_witness:
  "alert_view \<lparr>timestamp = 0, contents = [(''1.2.3.0/24'', [100, 200])]\<rparr>
       [''1.2.3.0/24'' \<mapsto> [100, 200]] = ''[OK] No alerts!''
   \<and> alert_view \<lparr>timestamp = 0, contents = [(''1.2.3.0/24'', [200, 100])]\<rparr>
       [''1.2.3.0/24'' \<mapsto> [100, 200]] =
       ''[CRITICAL] Prefix 1.2.3.0/24 intent [100, 200] does not match reality [200, 100]  ''"
proof -
  have h: "[''1.2.3.0/24'' \<mapsto> [100, 200::int]] ''1.2.3.0/24'' = Some [100, 200]"
    by simp
  from alert_order_sensitive [where intent = "[''1.2.3.0/24'' \<mapsto> [100, 200]]"
      and p = "''1.2.3.0/24''" and t = 0, OF h]
  show ?thesis by simp
qed

text \<open>
  Claim C6. When every prefix of the view has an intent entry equal to its list, the
  report is exactly \<open>[OK] No alerts!\<close>. When some prefix of the view has an intent
  entry that differs from its list, the report begins with \<open>[CRITICAL]\<close> and contains
  the finding with the declared and the observed list.
\<close>

theorem alert_view_rendering:
  "((\<forall>(p, path) \<in> set (contents view). intent p = Some path) \<longrightarrow>
       alert_view view intent = ''[OK] No alerts!'')
   \<and> ((p, path) \<in> set (contents view) \<and> intent p = Some declared \<and> declared \<noteq> path \<longrightarrow>
         take 10 (alert_view view intent) = ''[CRITICAL]''
         \<and> sublist (''Prefix '' @ p @ '' intent '' @ repr_list declared
                      @ '' does not match reality '' @ repr_list path @ ''  '')
              (alert_view view intent))"
proof (intro conjI impI)
  assume "\<forall>(p, path) \<in> set (contents view). intent p = Some path"
  then show "alert_view view intent = ''[OK] No alerts!''" by (rule alert_view_ok)
next
  assume a: "(p, path) \<in> set (contents view) \<and> intent p = Some declared \<and> declared \<noteq> path"
  then have step: "alert_step intent (False, []) (p, path) =
      (True, ''Prefix '' @ p @ '' intent '' @ repr_list declared
                @ '' does not match reality '' @ repr_list path @ ''  '')"
    using alert_step_mismatch[of intent p declared path False "[]"] by simp
  from a have m: "(p, path) \<in> set (contents view)" by simp
  from alert_view_critical[OF m step]
  show "take 10 (alert_view view intent) = ''[CRITICAL]''"
    and "sublist (''Prefix '' @ p @ '' intent '' @ repr_list declared
                      @ '' does not match reality '' @ repr_list path @ ''  '')
              (alert_view view intent)" by simp_all
qed

theorem alert_view_rendering_witness:
  "alert_view \<lparr>timestamp = 0, contents = [(''1.2.3.0/24'', [3257])]\<rparr>
       [''1.2.3.0/24'' \<mapsto> [3257]] = ''[OK] No alerts!''
   \<and> take 10 (alert_view \<lparr>timestamp = 0, contents = [(''1.2.3.0/24'', [6939])]\<rparr>
       [''1.2.3.0/24'' \<mapsto> [3257]]) = ''[CRITICAL]''
   \<and> sublist ''Prefix 1.2.3.0/24 intent [3257] does not match reality [6939]  ''
       (alert_view \<lparr>timestamp = 0, contents = [(''1.2.3.0/24'', [6939])]\<rparr>
         [''1.2.3.0/24'' \<mapsto> [3257]])"
proof -
  let ?intent = "[''1.2.3.0/24'' \<mapsto> [3257::int]]"
  let ?good = "\<lparr>timestamp = 0, contents = [(''1.2.3.0/24'', [3257])]\<rparr>"
  let ?bad = "\<lparr>timestamp = 0, contents = [(''1.2.3.0/24'', [6939])]\<rparr>"
  have r1: "repr_list [3257] = ''[3257]''" by (simp add: repr_list_def str_int_def)
  have r2: "repr_list [6939] = ''[6939]''" by (simp add: repr_list_def str_int_def)
  have "\<forall>(p, path) \<in> set (contents ?good). ?intent p = Some path" by simp
  with alert_view_rendering [of ?good ?intent, THEN conjunct1]
  have 1: "alert_view ?good ?intent = ''[OK] No alerts!''"
    by (rule mp)
  have "(''1.2.3.0/24'', [6939]) \<in> set (contents ?bad) \<and> ?intent ''1.2.3.0/24'' = Some [3257]
      \<and> [3257] \<noteq> [6939::int]" by simp
  with alert_view_rendering [of ?bad ?intent "''1.2.3.0/24''" "[6939]" "[3257]", THEN conjunct2]
  have 2: "take 10 (alert_view ?bad ?intent) = ''[CRITICAL]''
     \<and> sublist (''Prefix '' @ ''1.2.3.0/24'' @ '' intent '' @ repr_list [3257]
                      @ '' does not match reality '' @ repr_list [6939] @ ''  '')
              (alert_view ?bad ?intent)" by (rule mp)
  show ?thesis using 1 2 unfolding r1 r2 by simp
qed

text \<open>
  Claim C7. A prefix of the view that the intent does not have makes the report begin
  with \<open>[CRITICAL]\<close> and contain \<open>Prefix p not found in intent file!\<close>, whatever its
  list of AS numbers.
\<close>

theorem alert_undeclared_prefix:
  assumes "(p, path) \<in> set (contents view)" and "intent p = None"
  shows "take 10 (alert_view view intent) = ''[CRITICAL]''
     \<and> sublist (''Prefix '' @ p @ '' not found in intent file! '') (alert_view view intent)"
proof -
  have "alert_step intent (False, []) (p, path) =
      (True, ''Prefix '' @ p @ '' not found in intent file! '')"
    using alert_step_undeclared[of intent p False "[]" path] assms(2) by simp
  from alert_view_critical[OF assms(1) this] show ?thesis .
qed

theorem alert_undeclared_prefix_witness:
  "take 10 (alert_view \<lparr>timestamp = 0, contents = [(''1.2.3.0/24'', [3257]), (''9.9.9.0/24'', [])]\<rparr>
       [''1.2.3.0/24'' \<mapsto> [3257]]) = ''[CRITICAL]''
   \<and> sublist ''Prefix 9.9.9.0/24 not found in intent file! ''
       (alert_view \<lparr>timestamp = 0, contents = [(''1.2.3.0/24'', [3257]), (''9.9.9.0/24'', [])]\<rparr>
          [''1.2.3.0/24'' \<mapsto> [3257]])"
proof -
  let ?view = "\<lparr>timestamp = 0, contents = [(''1.2.3.0/24'', [3257]), (''9.9.9.0/24'', [])]\<rparr>"
  let ?intent = "[''1.2.3.0/24'' \<mapsto> [3257::int]]"
  have a: "(''9.9.9.0/24'', []) \<in> set (contents ?view)" by simp
  have b: "?intent ''9.9.9.0/24'' = None" by simp
  from alert_undeclared_prefix [of "''9.9.9.0/24''" "[]" ?view ?intent, OF a b] show ?thesis by simp
qed

text \<open>
  Claim C10. The report depends on the intent only at the prefixes of the view: two
  intents that agree there give the same report. So an intent entry for a prefix that
  the view no longer has adds no finding, and the report is \<open>[OK] No alerts!\<close> when the
  prefixes that remain all match.
\<close>

theorem alert_ignores_absent_prefixes:
  "((\<forall>p \<in> fst ` set (contents view). intent' p = intent p) \<longrightarrow>
       alert_view view intent' = alert_view view intent)
   \<and> (q \<notin> fst ` set (contents view) \<and> intent q = Some declared
        \<and> (\<forall>(p, path) \<in> set (contents view). intent p = Some path) \<longrightarrow>
         alert_view view intent = ''[OK] No alerts!'')"
proof (intro conjI impI)
  assume "\<forall>p \<in> fst ` set (contents view). intent' p = intent p"
  then have "alert_loop intent' (False, []) (contents view) = alert_loop intent (False, []) (contents view)"
    by (rule alert_loop_cong)
  then show "alert_view view intent' = alert_view view intent"
    by (simp add: alert_view_def)
next
  assume "q \<notin> fst ` set (contents view) \<and> intent q = Some declared
        \<and> (\<forall>(p, path) \<in> set (contents view). intent p = Some path)"
  then have "\<forall>(p, path) \<in> set (contents view). intent p = Some path" by simp
  then show "alert_view view intent = ''[OK] No alerts!''" by (rule alert_view_ok)
qed

theorem alert_ignores_absent_prefixes_witness:
  "alert_view \<lparr>timestamp = 0, contents = [(''1.2.3.0/24'', [3257])]\<rparr>
       [''1.2.3.0/24'' \<mapsto> [3257], ''9.9.9.0/24'' \<mapsto> [6939]] = ''[OK] No alerts!''
   \<and> alert_view \<lparr>timestamp = 0, contents = [(''1.2.3.0/24'', [3257])]\<rparr>
       [''1.2.3.0/24'' \<mapsto> [3257], ''9.9.9.0/24'' \<mapsto> [6939]] =
     alert_view \<lparr>timestamp = 0, contents = [(''1.2.3.0/24'', [3257])]\<rparr>
       [''1.2.3.0/24'' \<mapsto> [3257]]"
proof -
  let ?view = "\<lparr>timestamp = 0, contents = [(''1.2.3.0/24'', [3257])]\<rparr>"
  let ?small = "[''1.2.3.0/24'' \<mapsto> [3257::int]]"
  let ?big = "[''1.2.3.0/24'' \<mapsto> [3257::int], ''9.9.9.0/24'' \<mapsto> [6939]]"
  have a: "\<forall>p \<in> fst ` set (contents ?view). ?big p = ?small p" by simp
  have b: "''9.9.9.0/24'' \<notin> fst ` set (contents ?view) \<and> ?big ''9.9.9.0/24'' = Some [6939]
        \<and> (\<forall>(p, path) \<in> set (contents ?view). ?big p = Some path)" by simp
  from alert_ignores_absent_prefixes [of ?view ?big ?small "''9.9.9.0/24''" "[6939]"]
  have "alert_view ?view ?big = alert_view ?view ?small" using a by (rule conjunct1 [THEN mp])
  moreover from alert_ignores_absent_prefixes [of ?view ?small ?big "''9.9.9.0/24''" "[6939]"]
  have "alert_view ?view ?big = ''[OK] No alerts!''" using b by (rule conjunct2 [THEN mp])
  ultimately show ?thesis by (intro conjI)
qed

section \<open>Fetching, the log file and the refresh policy\<close>

lemma counts_log [simp]:
  "fetches (log e w) = fetches w + (if e = Fetch then 1 else 0)"
  "appends (log e w) = appends w + (if e = Append then 1 else 0)"
  "reads (log e w) = reads w + (if e = Read then 1 else 0)"
  by (simp_all add: fetches_def appends_def reads_def log_def)

lemma fields_log [simp]:
  "log_file (log e w) = log_file w" "clock (log e w) = clock w" "connects (log e w) = connects w"
  by (simp_all add: log_def)

lemma counts_update [simp]:
  "fetches (w\<lparr>connects := n\<rparr>) = fetches w" "appends (w\<lparr>connects := n\<rparr>) = appends w"
  "reads (w\<lparr>connects := n\<rparr>) = reads w"
  "fetches (w\<lparr>clock := c\<rparr>) = fetches w" "appends (w\<lparr>clock := c\<rparr>) = appends w"
  "reads (w\<lparr>clock := c\<rparr>) = reads w"
  "fetches (w\<lparr>log_file := f\<rparr>) = fetches w" "appends (w\<lparr>log_file := f\<rparr>) = appends w"
  "reads (w\<lparr>log_file := f\<rparr>) = reads w"
  by (simp_all add: fetches_def appends_def reads_def)

lemma sleep_fields [simp]:
  "log_file (sleep n w) = log_file w" "clock (sleep n w) = clock w + seconds n"
  "connects (sleep n w) = connects w"
  "fetches (sleep n w) = fetches w" "appends (sleep n w) = appends w" "reads (sleep n w) = reads w"
  by (simp_all add: sleep_def)

lemma connect_loop_keeps:
  "connect_loop srv n w = (res, w') \<Longrightarrow>
     log_file w' = log_file w \<and> fetches w' = fetches w \<and> appends w' = appends w
     \<and> reads w' = reads w \<and> clock w \<le> clock w'"
proof (induction n arbitrary: w)
  case 0
  then show ?case by simp
next
  case (Suc n)
  show ?case
  proof (cases "connect_handler srv (connects w)")
    case AuthenticationException
    with Suc.prems have "connect_loop srv n (sleep 3 (log Connect (w\<lparr>connects := connects w + 1\<rparr>))) = (res, w')"
      by (simp add: Let_def)
    from Suc.IH[OF this] show ?thesis by (simp add: seconds_def)
  next
    case OtherException
    with Suc.prems show ?thesis by (auto simp: Let_def)
  next
    case (Session c)
    with Suc.prems show ?thesis by (auto simp: Let_def)
  qed
qed

lemma append_view_fields [simp]:
  "log_file (append_view v w) = Some ((case log_file w of None \<Rightarrow> [] | Some vs \<Rightarrow> vs) @ [v])"
  "clock (append_view v w) = clock w"
  "fetches (append_view v w) = fetches w" "appends (append_view v w) = appends w + 1"
  "reads (append_view v w) = reads w"
  by (simp_all add: append_view_def)

lemma fetch_summary:
  assumes "view_from_route_server srv asn w = (res, w')"
  shows "fetches w' = fetches w + 1 \<and> reads w' = reads w \<and> clock w \<le> clock w'
    \<and> (case res of
          Inl e \<Rightarrow> log_file w' = log_file w \<and> appends w' = appends w
        | Inr u \<Rightarrow> appends w' = appends w + 1
            \<and> (\<exists>v. log_file w' = Some ((case log_file w of None \<Rightarrow> [] | Some vs \<Rightarrow> vs) @ [v])
                   \<and> timestamp v = clock w'))"
proof -
  obtain r1 w1 where c: "connect_loop srv 5 (log Fetch w) = (r1, w1)"
    by (cases "connect_loop srv 5 (log Fetch w)")
  from connect_loop_keeps[OF c] have k: "log_file w1 = log_file w" "fetches w1 = fetches w + 1"
    "appends w1 = appends w" "reads w1 = reads w" "clock w \<le> clock w1" by simp_all
  show ?thesis using assms c k
    by (auto simp: view_from_route_server_def Let_def
          split: sum.splits command_result.splits option.splits)
qed

text \<open>What a fetch that succeeds appends: the normalised records, stamped with the clock.\<close>

lemma fetch_appends_normalized:
  assumes "view_from_route_server srv asn w = (Inr u, w')"
  shows "\<exists>text parsed data.
      parse_output srv (strip_markers text) = Some parsed
      \<and> normalize asn parsed = Inr data
      \<and> log_file w' =
          Some ((case log_file w of None \<Rightarrow> [] | Some vs \<Rightarrow> vs)
                  @ [\<lparr>timestamp = clock w', contents = data\<rparr>])"
proof -
  obtain r1 w1 where c: "connect_loop srv 5 (log Fetch w) = (r1, w1)"
    by (cases "connect_loop srv 5 (log Fetch w)")
  from connect_loop_keeps[OF c] have k: "log_file w1 = log_file w" by simp
  show ?thesis using assms c k
    by (auto simp: view_from_route_server_def Let_def
          split: sum.splits command_result.splits option.splits) blast+
qed

lemma read_file_present:
  "log_file w = Some ls \<Longrightarrow>
     read_file w = (Inr (if ls = [] then None else Some (last ls)), log Read w)"
  by (simp add: read_file_def)

lemma view_from_file_present:
  "log_file w = Some ls \<Longrightarrow> ls \<noteq> [] \<Longrightarrow>
     view_from_file srv asn w = (Inr (Some (last ls)), log Read w)"
  by (simp add: view_from_file_def read_file_present)

text \<open>After a fetch that succeeded the file ends with the new view.\<close>

lemma fetch_then_read:
  assumes "view_from_route_server srv asn w = (Inr u, w1)"
  shows "\<exists>ls. log_file w1 = Some ls \<and> ls \<noteq> [] \<and> timestamp (last ls) = clock w1
     \<and> read_file w1 = (Inr (Some (last ls)), log Read w1)"
proof -
  from fetch_summary[OF assms] obtain v where
    "log_file w1 = Some ((case log_file w of None \<Rightarrow> [] | Some vs \<Rightarrow> vs) @ [v])"
    and "timestamp v = clock w1" by auto
  then show ?thesis by (simp add: read_file_present)
qed

lemma view_from_file_summary:
  assumes "view_from_file srv asn w = (res, w')"
  shows "fetches w' \<le> fetches w + 1 \<and> appends w' \<le> appends w + 1 \<and> reads w' \<le> reads w + 2
    \<and> fetches w \<le> fetches w'
    \<and> ((log_file w = None \<or> log_file w = Some []) \<longrightarrow> fetches w' = fetches w + 1)
    \<and> (\<forall>x. res = Inr x \<longrightarrow>
          (\<exists>ls. log_file w' = Some ls \<and> ls \<noteq> [] \<and> x = Some (last ls)
             \<and> ((log_file w = None \<or> log_file w = Some []) \<longrightarrow>
                  timestamp (last ls) = clock w')))"
proof (cases "log_file w")
  case None
  obtain r1 w1 where f: "view_from_route_server srv asn w = (r1, w1)"
    by (cases "view_from_route_server srv asn w")
  show ?thesis
  proof (cases r1)
    case (Inl e)
    with assms f None have "res = Inl e" "w' = w1" by (simp_all add: view_from_file_def)
    with fetch_summary[OF f] Inl show ?thesis by simp
  next
    case (Inr u)
    from fetch_then_read[OF f[unfolded Inr]] obtain ls where
      ls: "log_file w1 = Some ls" "ls \<noteq> []" "timestamp (last ls) = clock w1"
        "read_file w1 = (Inr (Some (last ls)), log Read w1)" by blast
    with assms f None Inr have "res = Inr (Some (last ls))" "w' = log Read w1"
      by (simp_all add: view_from_file_def)
    with fetch_summary[OF f] Inr ls None show ?thesis by simp
  qed
next
  case (Some ls)
  show ?thesis
  proof (cases "ls = []")
    case False
    with view_from_file_present[OF Some False, of srv asn] assms Some show ?thesis by auto
  next
    case True
    let ?w0 = "log Read w"
    have r: "read_file w = (Inr None, ?w0)" using Some True by (simp add: read_file_def)
    obtain r1 w1 where f: "view_from_route_server srv asn ?w0 = (r1, w1)"
      by (cases "view_from_route_server srv asn ?w0")
    show ?thesis
    proof (cases r1)
      case (Inl e)
      with assms f Some r have "res = Inl e" "w' = w1" by (simp_all add: view_from_file_def)
      with fetch_summary[OF f] Inl Some True show ?thesis by simp
    next
      case (Inr u)
      from fetch_then_read[OF f[unfolded Inr]] obtain ls' where
        ls: "log_file w1 = Some ls'" "ls' \<noteq> []" "timestamp (last ls') = clock w1"
          "read_file w1 = (Inr (Some (last ls')), log Read w1)" by blast
      with assms f Some r Inr have "res = Inr (Some (last ls'))" "w' = log Read w1"
        by (simp_all add: view_from_file_def)
      with fetch_summary[OF f] Inr ls Some True show ?thesis by simp
    qed
  qed
qed

lemma fetch_needed_iff:
  "fetch_needed latest_view refresh time_now \<longleftrightarrow>
     latest_view = None \<or> refresh
     \<or> (\<exists>v. latest_view = Some v \<and> hours 8 < time_now - timestamp v)"
  by (auto simp: fetch_needed_def split: option.splits)

lemma get_view_present:
  assumes "log_file w = Some ls" and "ls \<noteq> []"
    and gv: "get_view srv asn refresh w = (res, w')"
  shows "fetches w' =
           fetches w + (if refresh \<or> hours 8 < clock w - timestamp (last ls) then 1 else 0)
     \<and> appends w' \<le> appends w + 1
     \<and> reads w' \<le> reads w + 2"
proof -
  let ?w1 = "log Read w"
  have vf: "view_from_file srv asn w = (Inr (Some (last ls)), ?w1)"
    using assms(1,2) by (rule view_from_file_present)
  have again: "view_from_file srv asn ?w1 = (Inr (Some (last ls)), log Read ?w1)"
    using assms(1,2) by (intro view_from_file_present) simp_all
  show ?thesis
  proof (cases "fetch_needed (Some (last ls)) refresh (clock w)")
    case False
    then have "get_view srv asn refresh w = (Inr (Some (last ls)), log Read ?w1)"
      using vf again by (simp add: get_view_def)
    moreover have "\<not> (refresh \<or> hours 8 < clock w - timestamp (last ls))"
      using False by (simp add: fetch_needed_iff)
    ultimately show ?thesis using gv by simp
  next
    case True
    then have cond: "refresh \<or> hours 8 < clock w - timestamp (last ls)"
      by (simp add: fetch_needed_iff)
    obtain r2 w2 where f: "view_from_route_server srv asn ?w1 = (r2, w2)"
      by (cases "view_from_route_server srv asn ?w1")
    show ?thesis
    proof (cases r2)
      case (Inl e)
      then have "get_view srv asn refresh w = (Inl e, w2)"
        using vf True f by (simp add: get_view_def)
      with fetch_summary[OF f] Inl cond gv show ?thesis by auto
    next
      case (Inr u)
      from fetch_then_read[OF f[unfolded Inr]] obtain ls2 where
        ls2: "log_file w2 = Some ls2" "ls2 \<noteq> []" by blast
      have "get_view srv asn refresh w = (Inr (Some (last ls2)), log Read w2)"
        using vf True f Inr view_from_file_present[OF ls2, of srv asn] by (simp add: get_view_def)
      with fetch_summary[OF f] Inr cond gv show ?thesis by auto
    qed
  qed
qed

lemma get_view_absent:
  assumes "log_file w = None \<or> log_file w = Some []"
    and gv: "get_view srv asn refresh w = (res, w')"
  shows "fetches w < fetches w'
     \<and> reads w' \<le> reads w + 3
     \<and> (\<not> refresh \<longrightarrow> fetches w' = fetches w + 1 \<and> appends w' \<le> appends w + 1)"
proof -
  obtain r1 w1 where vf: "view_from_file srv asn w = (r1, w1)"
    by (cases "view_from_file srv asn w")
  note s1 = view_from_file_summary[OF vf]
  from s1 assms(1) have f1: "fetches w1 = fetches w + 1" by blast
  show ?thesis
  proof (cases r1)
    case (Inl e)
    then have "get_view srv asn refresh w = (Inl e, w1)" using vf by (simp add: get_view_def)
    with s1 f1 gv show ?thesis by simp
  next
    case (Inr x)
    with s1 assms(1) obtain ls where ls: "log_file w1 = Some ls" "ls \<noteq> []" "x = Some (last ls)"
      "timestamp (last ls) = clock w1" by blast
    have again: "view_from_file srv asn w1 = (Inr (Some (last ls)), log Read w1)"
      using ls(1,2) by (rule view_from_file_present)
    have need: "fetch_needed x refresh (clock w1) = refresh"
      using ls(3,4) by (simp add: fetch_needed_iff hours_def seconds_def)
    show ?thesis
    proof (cases refresh)
      case False
      then have "get_view srv asn refresh w = (Inr (Some (last ls)), log Read w1)"
        using vf Inr need again by (simp add: get_view_def)
      with s1 f1 False gv show ?thesis by simp
    next
      case True
      obtain r2 w2 where f: "view_from_route_server srv asn w1 = (r2, w2)"
        by (cases "view_from_route_server srv asn w1")
      show ?thesis
      proof (cases r2)
        case (Inl e)
        then have "get_view srv asn refresh w = (Inl e, w2)"
          using vf Inr need True f by (simp add: get_view_def)
        with fetch_summary[OF f] s1 f1 True gv show ?thesis by simp
      next
        case r2: (Inr u)
        from fetch_then_read[OF f[unfolded r2]] obtain ls2 where
          ls2: "log_file w2 = Some ls2" "ls2 \<noteq> []" by blast
        have "get_view srv asn refresh w = (Inr (Some (last ls2)), log Read w2)"
          using vf Inr need True f r2 view_from_file_present[OF ls2, of srv asn]
          by (simp add: get_view_def)
        with fetch_summary[OF f] s1 f1 True gv show ?thesis by simp
      qed
    qed
  qed
qed

lemma get_view_unchanged:
  assumes "log_file w = Some ls" and "ls \<noteq> []" and "\<not> refresh"
    and "\<not> hours 8 < clock w - timestamp (last ls)"
  shows "get_view srv asn refresh w = (Inr (Some (last ls)), log Read (log Read w))"
proof -
  have "view_from_file srv asn w = (Inr (Some (last ls)), log Read w)"
    using assms(1,2) by (rule view_from_file_present)
  moreover have "view_from_file srv asn (log Read w) = (Inr (Some (last ls)), log Read (log Read w))"
    using assms(1,2) by (intro view_from_file_present) simp_all
  moreover have "\<not> fetch_needed (Some (last ls)) refresh (clock w)"
    using assms(3,4) by (simp add: fetch_needed_iff)
  ultimately show ?thesis by (simp add: get_view_def)
qed

text \<open>
  Claim C3. \<open>_get_view\<close> fetches if and only if the log holds no snapshot (the file is
  absent or empty), or \<open>refresh\<close> is set, or the latest snapshot is more than 8 hours
  old: with a snapshot in the log, the number of fetches of the invocation is 1 when the
  flag is set or the age exceeds 8 hours and 0 otherwise, and an age of exactly 8 hours
  fetches nothing; without one it is at least 1. The test of lines 166 to 172 is that
  disjunction.
\<close>

theorem refresh_policy:
  "((log_file w = None \<or> log_file w = Some []) \<longrightarrow>
       fetches w < fetches (snd (get_view srv asn refresh w)))
   \<and> (log_file w = Some ls \<and> ls \<noteq> [] \<longrightarrow>
         fetches (snd (get_view srv asn refresh w)) =
           fetches w + (if refresh \<or> hours 8 < clock w - timestamp (last ls) then 1 else 0))
   \<and> (log_file w = Some ls \<and> ls \<noteq> [] \<and> \<not> refresh \<and> clock w - timestamp (last ls) = hours 8 \<longrightarrow>
         fetches (snd (get_view srv asn refresh w)) = fetches w)
   \<and> (fetch_needed latest_view refresh time_now \<longleftrightarrow>
         latest_view = None \<or> refresh
         \<or> (\<exists>v. latest_view = Some v \<and> hours 8 < time_now - timestamp v))"
proof -
  obtain res w' where gv: "get_view srv asn refresh w = (res, w')"
    by (cases "get_view srv asn refresh w")
  have 1: "(log_file w = None \<or> log_file w = Some []) \<longrightarrow> fetches w < fetches w'"
    using get_view_absent[OF _ gv] by blast
  have 2: "log_file w = Some ls \<and> ls \<noteq> [] \<longrightarrow>
         fetches w' = fetches w + (if refresh \<or> hours 8 < clock w - timestamp (last ls) then 1 else 0)"
    using get_view_present[OF _ _ gv] by blast
  have 3: "log_file w = Some ls \<and> ls \<noteq> [] \<and> \<not> refresh \<and> clock w - timestamp (last ls) = hours 8 \<longrightarrow>
         fetches w' = fetches w"
    using 2 by simp
  show ?thesis using 1 2 3 fetch_needed_iff[of latest_view refresh time_now] unfolding gv snd_conv
    by (intro conjI)
qed

theorem refresh_policy_witness:
  "fetches (snd (get_view
      \<lparr>connect_handler = (\<lambda>n. Session (\<lambda>c. Output '''')), parse_output = (\<lambda>s. Some [])\<rparr>
      ''3257'' False
      \<lparr>log_file = Some [\<lparr>timestamp = 100, contents = []\<rparr>], clock = 100 + hours 8,
        connects = 0, trace = []\<rparr>)) = 0
   \<and> fetches (snd (get_view
      \<lparr>connect_handler = (\<lambda>n. Session (\<lambda>c. Output '''')), parse_output = (\<lambda>s. Some [])\<rparr>
      ''3257'' False
      \<lparr>log_file = Some [\<lparr>timestamp = 100, contents = []\<rparr>], clock = 101 + hours 8,
        connects = 0, trace = []\<rparr>)) = 1
   \<and> fetches (snd (get_view
      \<lparr>connect_handler = (\<lambda>n. Session (\<lambda>c. Output '''')), parse_output = (\<lambda>s. Some [])\<rparr>
      ''3257'' True
      \<lparr>log_file = Some [\<lparr>timestamp = 100, contents = []\<rparr>], clock = 100,
        connects = 0, trace = []\<rparr>)) = 1
   \<and> 0 < fetches (snd (get_view
      \<lparr>connect_handler = (\<lambda>n. Session (\<lambda>c. Output '''')), parse_output = (\<lambda>s. Some [])\<rparr>
      ''3257'' False
      \<lparr>log_file = None, clock = 100, connects = 0, trace = []\<rparr>))"
proof -
  let ?srv = "\<lparr>connect_handler = (\<lambda>n. Session (\<lambda>c. Output '''')), parse_output = (\<lambda>s. Some [])\<rparr>"
  let ?v = "\<lparr>timestamp = 100, contents = []\<rparr>"
  let ?exact = "\<lparr>log_file = Some [?v], clock = 100 + hours 8, connects = 0, trace = []\<rparr>"
  let ?stale = "\<lparr>log_file = Some [?v], clock = 101 + hours 8, connects = 0, trace = []\<rparr>"
  let ?new = "\<lparr>log_file = Some [?v], clock = 100, connects = 0, trace = []\<rparr>"
  let ?absent = "\<lparr>log_file = None, clock = 100, connects = 0, trace = []\<rparr>"
  have a: "log_file ?exact = Some [?v] \<and> [?v] \<noteq> [] \<and> \<not> False
      \<and> clock ?exact - timestamp (last [?v]) = hours 8" by simp
  have b: "log_file ?stale = Some [?v] \<and> [?v] \<noteq> []" by simp
  have c: "log_file ?new = Some [?v] \<and> [?v] \<noteq> []" by simp
  have d: "log_file ?absent = None \<or> log_file ?absent = Some []" by simp
  from refresh_policy [where w = ?exact and ls = "[?v]" and srv = ?srv and asn = "''3257''" and refresh = False] a
  have 1: "fetches (snd (get_view ?srv ''3257'' False ?exact)) = fetches ?exact" by blast
  from refresh_policy [where w = ?stale and ls = "[?v]" and srv = ?srv and asn = "''3257''" and refresh = False] b
  have 2: "fetches (snd (get_view ?srv ''3257'' False ?stale)) =
      fetches ?stale + (if False \<or> hours 8 < clock ?stale - timestamp (last [?v]) then 1 else 0)"
    by blast
  from refresh_policy [where w = ?new and ls = "[?v]" and srv = ?srv and asn = "''3257''" and refresh = True] c
  have 3: "fetches (snd (get_view ?srv ''3257'' True ?new)) =
      fetches ?new + (if True \<or> hours 8 < clock ?new - timestamp (last [?v]) then 1 else 0)"
    by blast
  from refresh_policy [where w = ?absent and srv = ?srv and asn = "''3257''" and refresh = False] d
  have 4: "fetches ?absent < fetches (snd (get_view ?srv ''3257'' False ?absent))" by blast
  show ?thesis using 1 2 3 4 by (simp add: fetches_def)
qed

lemma connect_loop_auth:
  "\<forall>k<n. connect_handler srv (connects w + k) = AuthenticationException \<Longrightarrow>
     connect_loop srv n w =
       (Inl (RuntimeError ''Error logging into route-views after 5 attempts''),
        w\<lparr>clock := clock w + seconds (3 * n), connects := connects w + n,
          trace := trace w @ concat (replicate n [Connect, Sleep 3])\<rparr>)"
proof (induction n arbitrary: w)
  case 0
  show ?case by (simp add: seconds_def)
next
  case (Suc n)
  let ?w1 = "sleep 3 (log Connect (w\<lparr>connects := connects w + 1\<rparr>))"
  have h: "connect_handler srv (connects w) = AuthenticationException"
    using Suc.prems by (metis add.right_neutral zero_less_Suc)
  have "\<forall>k<n. connect_handler srv (connects ?w1 + k) = AuthenticationException"
  proof (intro allI impI)
    fix k assume "k < n"
    then have "Suc k < Suc n" by simp
    with Suc.prems have "connect_handler srv (connects w + Suc k) = AuthenticationException"
      by blast
    then show "connect_handler srv (connects ?w1 + k) = AuthenticationException" by simp
  qed
  from Suc.IH[OF this] h show ?case
    by (simp add: Let_def sleep_def log_def seconds_def algebra_simps)
qed

text \<open>
  Claim C4. When the next five connection attempts fail to authenticate, the fetch makes
  exactly those five attempts, each followed by a sleep of 3 seconds, and then raises the
  \<open>RuntimeError\<close>; the log file is as it was.
\<close>

theorem fetch_auth_exhaustion:
  assumes "\<forall>k<5. connect_handler srv (connects w + k) = AuthenticationException"
  shows "view_from_route_server srv asn w =
     (Inl (RuntimeError ''Error logging into route-views after 5 attempts''),
      w\<lparr>clock := clock w + seconds 15, connects := connects w + 5,
        trace := trace w @ [Fetch, Connect, Sleep 3, Connect, Sleep 3, Connect, Sleep 3,
                            Connect, Sleep 3, Connect, Sleep 3]\<rparr>)"
proof -
  have "\<forall>k<5. connect_handler srv (connects (log Fetch w) + k) = AuthenticationException"
    using assms by simp
  from connect_loop_auth[OF this] show ?thesis
    by (simp add: view_from_route_server_def log_def eval_nat_numeral)
qed

theorem fetch_auth_exhaustion_witness:
  "view_from_route_server
     \<lparr>connect_handler = (\<lambda>n. AuthenticationException), parse_output = (\<lambda>s. None)\<rparr> ''3257''
     \<lparr>log_file = Some [], clock = 0, connects = 0, trace = []\<rparr> =
     (Inl (RuntimeError ''Error logging into route-views after 5 attempts''),
      \<lparr>log_file = Some [], clock = 15000000, connects = 5,
        trace = [Fetch, Connect, Sleep 3, Connect, Sleep 3, Connect, Sleep 3,
                 Connect, Sleep 3, Connect, Sleep 3]\<rparr>)"
proof -
  let ?srv = "\<lparr>connect_handler = (\<lambda>n. AuthenticationException), parse_output = (\<lambda>s. None)\<rparr>"
  let ?w = "\<lparr>log_file = Some [], clock = 0, connects = 0, trace = []\<rparr>"
  have h: "\<forall>k<5. connect_handler ?srv (connects ?w + k) = AuthenticationException" by simp
  from fetch_auth_exhaustion [OF h, of "''3257''"] show ?thesis by (simp add: seconds_def)
qed

text \<open>
  Claim C5. A fetch that ends in any error leaves the log file exactly as it was, and
  has appended nothing.
\<close>

theorem failed_fetch_appends_nothing:
  assumes "view_from_route_server srv asn w = (Inl e, w')"
  shows "log_file w' = log_file w \<and> appends w' = appends w"
  using fetch_summary[OF assms] by simp

theorem failed_fetch_appends_nothing_witness:
  "view_from_route_server
     \<lparr>connect_handler = (\<lambda>n. OtherException), parse_output = (\<lambda>s. None)\<rparr> ''3257''
     \<lparr>log_file = Some [\<lparr>timestamp = 7, contents = []\<rparr>], clock = 50, connects = 0, trace = []\<rparr>
     = (Inl ConnectError,
        \<lparr>log_file = Some [\<lparr>timestamp = 7, contents = []\<rparr>], clock = 50, connects = 1,
          trace = [Fetch, Connect]\<rparr>)
   \<and> view_from_route_server
     \<lparr>connect_handler = (\<lambda>n. Session (\<lambda>c. Output ''garbage'')), parse_output = (\<lambda>s. None)\<rparr>
     ''3257''
     \<lparr>log_file = Some [\<lparr>timestamp = 7, contents = []\<rparr>], clock = 50, connects = 0, trace = []\<rparr>
     = (Inl ParseError,
        \<lparr>log_file = Some [\<lparr>timestamp = 7, contents = []\<rparr>], clock = 50, connects = 1,
          trace = [Fetch, Connect, SendCommand ''show ip bgp regexp _3257'']\<rparr>)
   \<and> fst (view_from_route_server
     \<lparr>connect_handler = (\<lambda>n. AuthenticationException), parse_output = (\<lambda>s. None)\<rparr>
     ''3257''
     \<lparr>log_file = Some [\<lparr>timestamp = 7, contents = []\<rparr>], clock = 50, connects = 0, trace = []\<rparr>)
     = Inl (RuntimeError ''Error logging into route-views after 5 attempts'')
   \<and> log_file (snd (view_from_route_server
     \<lparr>connect_handler = (\<lambda>n. AuthenticationException), parse_output = (\<lambda>s. None)\<rparr>
     ''3257''
     \<lparr>log_file = Some [\<lparr>timestamp = 7, contents = []\<rparr>], clock = 50, connects = 0, trace = []\<rparr>))
     = Some [\<lparr>timestamp = 7, contents = []\<rparr>]
   \<and> log_file \<lparr>log_file = Some [\<lparr>timestamp = 7, contents = []\<rparr>], clock = 50, connects = 1,
          trace = [Fetch, Connect, SendCommand ''show ip bgp regexp _3257'']\<rparr>
      = log_file \<lparr>log_file = Some [\<lparr>timestamp = 7, contents = []\<rparr>], clock = 50,
          connects = 0, trace = []\<rparr>
   \<and> appends \<lparr>log_file = Some [\<lparr>timestamp = 7, contents = []\<rparr>], clock = 50, connects = 1,
          trace = [Fetch, Connect]\<rparr>
      = appends \<lparr>log_file = Some [\<lparr>timestamp = 7, contents = []\<rparr>], clock = 50,
          connects = 0, trace = []\<rparr>"
proof -
  let ?w = "\<lparr>log_file = Some [\<lparr>timestamp = 7, contents = []\<rparr>], clock = 50, connects = 0,
      trace = []\<rparr>"
  let ?refuse = "\<lparr>connect_handler = (\<lambda>n. OtherException), parse_output = (\<lambda>s. None)\<rparr>"
  let ?garble = "\<lparr>connect_handler = (\<lambda>n. Session (\<lambda>c. Output ''garbage'')),
      parse_output = (\<lambda>s. None)\<rparr>"
  have a: "view_from_route_server ?refuse ''3257'' ?w =
      (Inl ConnectError,
        \<lparr>log_file = Some [\<lparr>timestamp = 7, contents = []\<rparr>], clock = 50, connects = 1,
          trace = [Fetch, Connect]\<rparr>)"
    by (simp add: view_from_route_server_def log_def eval_nat_numeral)
  have b: "view_from_route_server ?garble ''3257'' ?w =
      (Inl ParseError,
        \<lparr>log_file = Some [\<lparr>timestamp = 7, contents = []\<rparr>], clock = 50, connects = 1,
          trace = [Fetch, Connect, SendCommand ''show ip bgp regexp _3257'']\<rparr>)"
    by (simp add: view_from_route_server_def log_def eval_nat_numeral)
  let ?deny = "\<lparr>connect_handler = (\<lambda>n. AuthenticationException), parse_output = (\<lambda>s. None)\<rparr>"
  obtain w' where c: "view_from_route_server ?deny ''3257'' ?w =
      (Inl (RuntimeError ''Error logging into route-views after 5 attempts''), w')"
    using connect_loop_auth [of 5 ?deny "log Fetch ?w"]
    by (simp add: view_from_route_server_def)
  from failed_fetch_appends_nothing [OF c] have "log_file w' = log_file ?w" by simp
  then have d: "fst (view_from_route_server ?deny ''3257'' ?w) =
        Inl (RuntimeError ''Error logging into route-views after 5 attempts'')
      \<and> log_file (snd (view_from_route_server ?deny ''3257'' ?w)) =
        Some [\<lparr>timestamp = 7, contents = []\<rparr>]"
    by (simp add: c)
  from failed_fetch_appends_nothing [OF a] failed_fetch_appends_nothing [OF b] a b d
  show ?thesis by (intro conjI) blast+
qed

text \<open>
  Claim C8, amended. One invocation of \<open>_get_view\<close> reads the log at most three times.
  When the \<open>refresh\<close> flag is not set, or the log already holds a snapshot, it fetches
  at most once and appends at most once.
\<close>

theorem invocation_bounds:
  "reads (snd (get_view srv asn refresh w)) \<le> reads w + 3
   \<and> ((\<not> refresh \<or> (\<exists>ls. log_file w = Some ls \<and> ls \<noteq> [])) \<longrightarrow>
         fetches (snd (get_view srv asn refresh w)) \<le> fetches w + 1
         \<and> appends (snd (get_view srv asn refresh w)) \<le> appends w + 1)"
proof -
  obtain res w' where gv: "get_view srv asn refresh w = (res, w')"
    by (cases "get_view srv asn refresh w")
  consider (absent) "log_file w = None \<or> log_file w = Some []"
    | (present) ls where "log_file w = Some ls" "ls \<noteq> []"
    by (cases "log_file w") auto
  then have "reads w' \<le> reads w + 3
   \<and> ((\<not> refresh \<or> (\<exists>ls. log_file w = Some ls \<and> ls \<noteq> [])) \<longrightarrow>
         fetches w' \<le> fetches w + 1 \<and> appends w' \<le> appends w + 1)"
  proof cases
    case absent
    from get_view_absent[OF absent gv] absent show ?thesis by auto
  next
    case present
    from get_view_present[OF present gv] show ?thesis by simp
  qed
  then show ?thesis by (simp add: gv)
qed

theorem invocation_bounds_witness:
  "reads (snd (get_view
      \<lparr>connect_handler = (\<lambda>n. Session (\<lambda>c. Output '''')), parse_output = (\<lambda>s. Some [])\<rparr>
      ''3257'' True
      \<lparr>log_file = Some [\<lparr>timestamp = 100, contents = []\<rparr>], clock = 100,
        connects = 0, trace = []\<rparr>)) \<le> 3
   \<and> fetches (snd (get_view
      \<lparr>connect_handler = (\<lambda>n. Session (\<lambda>c. Output '''')), parse_output = (\<lambda>s. Some [])\<rparr>
      ''3257'' True
      \<lparr>log_file = Some [\<lparr>timestamp = 100, contents = []\<rparr>], clock = 100,
        connects = 0, trace = []\<rparr>)) \<le> 1
   \<and> appends (snd (get_view
      \<lparr>connect_handler = (\<lambda>n. Session (\<lambda>c. Output '''')), parse_output = (\<lambda>s. Some [])\<rparr>
      ''3257'' True
      \<lparr>log_file = Some [\<lparr>timestamp = 100, contents = []\<rparr>], clock = 100,
        connects = 0, trace = []\<rparr>)) \<le> 1"
proof -
  let ?srv = "\<lparr>connect_handler = (\<lambda>n. Session (\<lambda>c. Output '''')), parse_output = (\<lambda>s. Some [])\<rparr>"
  let ?w = "\<lparr>log_file = Some [\<lparr>timestamp = 100, contents = []\<rparr>], clock = 100,
        connects = 0, trace = []\<rparr>"
  have h: "\<not> True \<or> (\<exists>ls. log_file ?w = Some ls \<and> ls \<noteq> [])" by simp
  from invocation_bounds [of ?srv "''3257''" True ?w] h
  have "reads (snd (get_view ?srv ''3257'' True ?w)) \<le> reads ?w + 3
    \<and> fetches (snd (get_view ?srv ''3257'' True ?w)) \<le> fetches ?w + 1
    \<and> appends (snd (get_view ?srv ''3257'' True ?w)) \<le> appends ?w + 1" by blast
  then show ?thesis by (simp add: reads_def fetches_def appends_def)
qed

text \<open>
  The bound of one read fails on a log with a fresh snapshot and no \<open>refresh\<close>:
  \<open>_get_view\<close> calls \<open>_view_from_file\<close> twice. The bound of one fetch fails on an
  absent log with \<open>refresh\<close> set: \<open>_view_from_file\<close> fetches to have a snapshot, and
  the flag fetches again.
\<close>

theorem single_fetch_and_read_counterexample:
  "reads (snd (get_view
      \<lparr>connect_handler = (\<lambda>n. Session (\<lambda>c. Output '''')), parse_output = (\<lambda>s. Some [])\<rparr>
      ''3257'' False
      \<lparr>log_file = Some [\<lparr>timestamp = 100, contents = []\<rparr>], clock = 100,
        connects = 0, trace = []\<rparr>)) = 2
   \<and> trace (snd (get_view
      \<lparr>connect_handler = (\<lambda>n. Session (\<lambda>c. Output '''')), parse_output = (\<lambda>s. Some [])\<rparr>
      ''3257'' True
      \<lparr>log_file = None, clock = 100, connects = 0, trace = []\<rparr>)) =
     [Fetch, Connect, SendCommand ''show ip bgp regexp _3257'', Append, Read,
      Fetch, Connect, SendCommand ''show ip bgp regexp _3257'', Append, Read]"
proof -
  let ?srv = "\<lparr>connect_handler = (\<lambda>n. Session (\<lambda>c. Output '''')),
      parse_output = (\<lambda>s. Some [])\<rparr>"
  let ?w = "\<lparr>log_file = Some [\<lparr>timestamp = 100, contents = []\<rparr>], clock = 100,
        connects = 0, trace = []\<rparr>"
  have "get_view ?srv ''3257'' False ?w =
      (Inr (Some (last [\<lparr>timestamp = 100, contents = []\<rparr>])), log Read (log Read ?w))"
    by (rule get_view_unchanged) (simp_all add: hours_def seconds_def)
  then have "reads (snd (get_view ?srv ''3257'' False ?w)) = reads ?w + 2"
    by simp
  then have 1: "reads (snd (get_view ?srv ''3257'' False ?w)) = 2"
    by (simp add: reads_def)
  have 2: "trace (snd (get_view ?srv ''3257'' True
      \<lparr>log_file = None, clock = 100, connects = 0, trace = []\<rparr>)) =
     [Fetch, Connect, SendCommand ''show ip bgp regexp _3257'', Append, Read,
      Fetch, Connect, SendCommand ''show ip bgp regexp _3257'', Append, Read]"
    by code_simp
  show ?thesis using 1 2 by (rule conjI)
qed

section \<open>The verbose report\<close>

lemma verbose_loop_concat:
  "verbose_loop out items = out @ concat (map (\<lambda>(pfx, path). verbose_line pfx path) items)"
  by (induction out items rule: verbose_loop.induct) simp_all

lemma sublist_join: "s \<in> set ss \<Longrightarrow> sublist s (join sep ss)"
proof (induction sep ss rule: join.induct)
  case (1 sep)
  then show ?case by simp
next
  case (2 sep s')
  then show ?case by simp
next
  case (3 sep s' t ss)
  show ?case
  proof (cases "s = s'")
    case True
    then show ?thesis by simp
  next
    case False
    with 3 have "sublist s (join sep (t # ss))" by simp
    then have "sublist s ((s' @ sep) @ join sep (t # ss))" by (simp only: sublist_append) blast
    then show ?thesis by simp
  qed
qed

lemma path_entry_unknown: "PEER_TRANSLATE n = None \<Longrightarrow> path_entry n = str_int n @ '' (UNKNOWN AS)''"
  by (simp add: path_entry_def)

lemma path_entry_known:
  "PEER_TRANSLATE n = Some name \<Longrightarrow> path_entry n = str_int n @ '' ('' @ name @ '')''"
  by (simp add: path_entry_def)

text \<open>
  Claim C9, amended. The verbose report is one line per prefix of the view, in order. A
  line shows the alias of the prefix in parentheses when the prefix table has one and
  the text \<open>(None)\<close> when it has none. Every AS number of the path appears with its name
  in parentheses when the peer table has one and with \<open>(UNKNOWN AS)\<close> otherwise.
\<close>

theorem verbose_view_lines:
  "verbose_view view = concat (map (\<lambda>(pfx, path). verbose_line pfx path) (contents view))
   \<and> (PREFIX_TRANSLATE pfx = Some label \<longrightarrow>
        verbose_line pfx path =
          ''Prefix '' @ pfx @ '' ('' @ label @ '') is accessible via next hop AS ''
            @ get_path path @ [CHR 0x0A])
   \<and> (PREFIX_TRANSLATE pfx = None \<longrightarrow>
        verbose_line pfx path =
          ''Prefix '' @ pfx @ '' (None) is accessible via next hop AS ''
            @ get_path path @ [CHR 0x0A])
   \<and> (n \<in> set path \<and> PEER_TRANSLATE n = None \<longrightarrow>
        sublist (str_int n @ '' (UNKNOWN AS)'') (get_path path))
   \<and> (n \<in> set path \<and> PEER_TRANSLATE n = Some name \<longrightarrow>
        sublist (str_int n @ '' ('' @ name @ '')'') (get_path path))"
proof (intro conjI impI)
  show "verbose_view view = concat (map (\<lambda>(pfx, path). verbose_line pfx path) (contents view))"
    by (simp add: verbose_view_def verbose_loop_concat)
next
  assume "PREFIX_TRANSLATE pfx = Some label"
  then show "verbose_line pfx path =
          ''Prefix '' @ pfx @ '' ('' @ label @ '') is accessible via next hop AS ''
            @ get_path path @ [CHR 0x0A]"
    by (simp add: verbose_line_def str_optional_def)
next
  assume "PREFIX_TRANSLATE pfx = None"
  then show "verbose_line pfx path =
          ''Prefix '' @ pfx @ '' (None) is accessible via next hop AS ''
            @ get_path path @ [CHR 0x0A]"
    by (simp add: verbose_line_def str_optional_def)
next
  assume a: "n \<in> set path \<and> PEER_TRANSLATE n = None"
  then have "path_entry n \<in> set (map path_entry path)" by simp
  then have "sublist (path_entry n) (get_path path)"
    unfolding get_path_def by (rule sublist_join)
  then show "sublist (str_int n @ '' (UNKNOWN AS)'') (get_path path)"
    using a by (simp add: path_entry_unknown)
next
  assume a: "n \<in> set path \<and> PEER_TRANSLATE n = Some name"
  then have "path_entry n \<in> set (map path_entry path)" by simp
  then have "sublist (path_entry n) (get_path path)"
    unfolding get_path_def by (rule sublist_join)
  then show "sublist (str_int n @ '' ('' @ name @ '')'') (get_path path)"
    using a by (simp add: path_entry_known)
qed

theorem verbose_view_lines_witness:
  "verbose_line ''10.0.0.0/8'' [3257, 65001] =
      ''Prefix 10.0.0.0/8 (None) is accessible via next hop AS '' @ get_path [3257, 65001]
        @ [CHR 0x0A]
   \<and> verbose_line ''1.2.3.0/24'' [3257, 65001] =
      ''Prefix 1.2.3.0/24 (MY_SITE) is accessible via next hop AS '' @ get_path [3257, 65001]
        @ [CHR 0x0A]
   \<and> sublist ''65001 (UNKNOWN AS)'' (get_path [3257, 65001])
   \<and> sublist ''3257 (GTT)'' (get_path [3257, 65001])"
proof -
  have p1: "PREFIX_TRANSLATE ''10.0.0.0/8'' = None" by (simp add: PREFIX_TRANSLATE_def)
  have p2: "PREFIX_TRANSLATE ''1.2.3.0/24'' = Some ''MY_SITE''" by (simp add: PREFIX_TRANSLATE_def)
  have a1: "65001 \<in> set [3257, 65001::int] \<and> PEER_TRANSLATE 65001 = None"
    by (simp add: PEER_TRANSLATE_def)
  have a2: "3257 \<in> set [3257, 65001::int] \<and> PEER_TRANSLATE 3257 = Some ''GTT''"
    by (simp add: PEER_TRANSLATE_def)
  have s1: "str_int 65001 = ''65001''" by (simp add: str_int_def)
  have s2: "str_int 3257 = ''3257''" by (simp add: str_int_def)
  note t1 = verbose_view_lines [where pfx = "''10.0.0.0/8''" and path = "[3257, 65001]"
      and n = "65001"]
  note t2 = verbose_view_lines [where pfx = "''1.2.3.0/24''" and path = "[3257, 65001]"
      and n = "3257" and label = "''MY_SITE''" and name = "''GTT''"]
  from t1 p1 have 1: "verbose_line ''10.0.0.0/8'' [3257, 65001] =
      ''Prefix '' @ ''10.0.0.0/8'' @ '' (None) is accessible via next hop AS ''
        @ get_path [3257, 65001] @ [CHR 0x0A]" by blast
  from t2 p2 have 2: "verbose_line ''1.2.3.0/24'' [3257, 65001] =
      ''Prefix '' @ ''1.2.3.0/24'' @ '' ('' @ ''MY_SITE'' @ '') is accessible via next hop AS ''
        @ get_path [3257, 65001] @ [CHR 0x0A]" by blast
  from t1 a1 have 3: "sublist (str_int 65001 @ '' (UNKNOWN AS)'') (get_path [3257, 65001])"
    by blast
  from t2 a2 have 4: "sublist (str_int 3257 @ '' ('' @ ''GTT'' @ '')'') (get_path [3257, 65001])"
    by blast
  show ?thesis using 1 2 3 4 unfolding s1 s2 by simp
qed

text \<open>
  For a prefix without an alias the line does not leave the alias out: it reads
  \<open>(None)\<close>.
\<close>

theorem verbose_absent_alias_counterexample:
  "PREFIX_TRANSLATE ''10.0.0.0/8'' = None
   \<and> verbose_view \<lparr>timestamp = 0, contents = [(''10.0.0.0/8'', [3257, 65001])]\<rparr> =
       ''Prefix 10.0.0.0/8 (None) is accessible via next hop AS 3257 (GTT), 65001 (UNKNOWN AS)''
         @ [CHR 0x0A]"
  by (simp add: PREFIX_TRANSLATE_def PEER_TRANSLATE_def verbose_view_def verbose_line_def
      str_optional_def get_path_def path_entry_def str_int_def)

end
